theory Spec2Isabelle
  imports Complex_Main "HOL-Library.Multiset"
begin

section \<open>Strings of the answer validator (src/utils.py)\<close>

text \<open>
  A Python \<open>str\<close> is a sequence of code points. The model covers the code points below
  256 (Latin-1), one \<^typ>\<open>char\<close> each, so that \<open>len\<close> is \<^const>\<open>length\<close>.
  \<open>str.strip()\<close> and \<open>str.split()\<close> without arguments use the same whitespace test, which
  below 256 holds for U+0009..U+000D, U+001C..U+001F, U+0020, U+0085 and U+00A0.
  \<open>str.lower()\<close> adds 32 to A..Z and to U+00C0..U+00DE except U+00D7, and leaves every
  other code point below 256 as it is.
\<close>

definition isspace :: "char \<Rightarrow> bool" where
  "isspace c = ((of_char c :: nat) \<in> {9, 10, 11, 12, 13, 28, 29, 30, 31, 32, 133, 160})"

definition isupper :: "char \<Rightarrow> bool" where
  "isupper c = (let n = (of_char c :: nat)
                in (65 \<le> n \<and> n \<le> 90) \<or> (192 \<le> n \<and> n \<le> 222 \<and> n \<noteq> 215))"

definition lower_char :: "char \<Rightarrow> char" where
  "lower_char c = (if isupper c then char_of ((of_char c :: nat) + 32) else c)"

definition lower :: "string \<Rightarrow> string" where
  "lower s = map lower_char s"

definition strip :: "string \<Rightarrow> string" where
  "strip s = rev (dropWhile isspace (rev (dropWhile isspace s)))"

text \<open>
  \<open>s.split()\<close>: the maximal runs of non-whitespace characters, left to right.
  \<open>split_from cur s\<close> scans \<open>s\<close> with the token under construction in \<open>cur\<close>.
\<close>

fun split_from :: "string \<Rightarrow> string \<Rightarrow> string list" where
  "split_from cur [] = (if cur = [] then [] else [cur])"
| "split_from cur (c # cs) =
     (if isspace c then (if cur = [] then split_from [] cs else cur # split_from [] cs)
      else split_from (cur @ [c]) cs)"

definition split :: "string \<Rightarrow> string list" where
  "split s = split_from [] s"

abbreviation normalize :: "string \<Rightarrow> string" where
  "normalize s \<equiv> lower (strip s)"

section \<open>validate_user_input (src/utils.py, lines 110-144)\<close>

text \<open>The inner loop of lines 134-136: is the word one of the meaning's words?\<close>

fun word_in_meaning :: "string \<Rightarrow> string list \<Rightarrow> bool" where
  "word_in_meaning w [] = False"
| "word_in_meaning w (meaning_word # rest) =
     (if w = meaning_word then True else word_in_meaning w rest)"

text \<open>
  The loop over \<open>valid_meanings\<close> of lines 119-144, with the already cleaned user input.
  Each \<open>return True\<close> of the source ends the recursion; falling out of the loop is the
  final \<open>return False\<close>.
\<close>

fun check_meanings :: "string \<Rightarrow> string list \<Rightarrow> bool" where
  "check_meanings user_input [] = False"
| "check_meanings user_input (meaning # rest) =
     (let meaning_clean = lower (strip meaning) in
      if user_input = meaning_clean then True
      else
        let user_words = split user_input;
            meaning_words = split meaning_clean
        in if length user_words = 1 \<and> 3 \<le> length (user_words ! 0) then
             (if word_in_meaning (user_words ! 0) meaning_words then True
              else check_meanings user_input rest)
           else if 1 < length user_words then
             (if set user_words \<subseteq> set meaning_words then True
              else check_meanings user_input rest)
           else check_meanings user_input rest)"

text \<open>
  Line 112 tests the raw arguments (\<open>not user_input or not valid_meanings\<close>), before the
  input is stripped on line 116. No operation of the function raises on strings, so the
  result is a plain \<^typ>\<open>bool\<close>.
\<close>

definition validate_user_input :: "string \<Rightarrow> string list \<Rightarrow> bool" where
  "validate_user_input user_input valid_meanings =
     (if user_input = [] \<or> valid_meanings = [] then False
      else check_meanings (lower (strip user_input)) valid_meanings)"

text \<open>A string is trimmed when it neither starts nor ends with whitespace.\<close>

definition trimmed :: "string \<Rightarrow> bool" where
  "trimmed u = (u = [] \<or> (\<not> isspace (hd u) \<and> \<not> isspace (last u)))"

text \<open>The three rules of the loop body, for one meaning.\<close>

definition meaning_accepts :: "string \<Rightarrow> string \<Rightarrow> bool" where
  "meaning_accepts u m =
     (u = normalize m
      \<or> (length (split u) = 1 \<and> 3 \<le> length (split u ! 0) \<and> split u ! 0 \<in> set (split (normalize m)))
      \<or> (1 < length (split u) \<and> set (split u) \<subseteq> set (split (normalize m))))"

section \<open>WordPicker (src/src/word_picker.py)\<close>

text \<open>
  A statistics dictionary of \<open>word_weights\<close> is a record. Its counters are Python
  integers; its weight is a Python float, taken here as a real number: the rounding of
  floating-point arithmetic is not modelled. The timestamp that line 135 reads from the
  clock is an argument of the model. \<open>word_weights\<close> itself is a dictionary from the key
  string of lines 46, 89 and 117 to the statistics. Writing the dictionary to the weights
  file (\<open>_save_weights\<close>) changes nothing in memory and is left out.
\<close>

datatype py_error = ValueError | IndexError | ZeroDivisionError

record word_stats =
  weight :: real
  correct_count :: int
  wrong_count :: int
  total_attempts :: int
  last_seen :: "string option"
  consecutive_correct :: int
  consecutive_wrong :: int

type_synonym word_weights = "string \<rightharpoonup> word_stats"

text \<open>A row of \<open>data_df\<close>, with the three columns that \<open>load_oxford_data\<close> requires.\<close>

record vocab_row =
  row_word :: string
  row_class :: string
  row_level :: string

definition word_key :: "string \<Rightarrow> string \<Rightarrow> string \<Rightarrow> string" where
  "word_key w c l = w @ ''_'' @ c @ ''_'' @ l"

text \<open>The dictionary literal of lines 49-57, 121-129, 344-352 and 359-367.\<close>

definition default_stats :: word_stats where
  "default_stats =
     \<lparr>weight = 1.0, correct_count = 0, wrong_count = 0, total_attempts = 0,
      last_seen = None, consecutive_correct = 0, consecutive_wrong = 0\<rparr>"

text \<open>\<open>_initialize_new_words\<close> (lines 41-62): the loop over the rows of \<open>data_df\<close>.\<close>

fun initialize_new_words :: "vocab_row list \<Rightarrow> word_weights \<Rightarrow> word_weights" where
  "initialize_new_words [] ww = ww"
| "initialize_new_words (row # rows) ww =
     (let k = word_key (row_word row) (row_class row) (row_level row)
      in initialize_new_words rows (if ww k = None then ww(k \<mapsto> default_stats) else ww))"

text \<open>\<open>_calculate_adaptive_weight\<close> (lines 157-210).\<close>

definition calculate_adaptive_weight :: "word_stats \<Rightarrow> real" where
  "calculate_adaptive_weight stats =
     (if total_attempts stats = 0 then 1.0
      else
        let accuracy = real_of_int (correct_count stats) / real_of_int (total_attempts stats);
            base_weight =
              (if accuracy \<ge> 0.8 then 0.3
               else if accuracy \<ge> 0.6 then 0.7
               else if accuracy \<ge> 0.4 then 1.2
               else 2.0);
            consecutive_modifier =
              (if consecutive_correct stats \<ge> 3 then 0.5
               else if consecutive_wrong stats \<ge> 2 then 2.5
               else 1.0);
            attempt_modifier =
              (if total_attempts stats \<le> 3 then 1.2
               else if total_attempts stats \<ge> 10 then 0.9
               else 1.0);
            final_weight = base_weight * consecutive_modifier * attempt_modifier
        in max 0.1 (min 5.0 final_weight))"

text \<open>
  \<open>update_word_performance\<close> (lines 107-155). \<open>update_stats\<close> is what lines 133-148 do to
  the statistics of the word.
\<close>

definition update_stats :: "bool \<Rightarrow> string \<Rightarrow> word_stats \<Rightarrow> word_stats" where
  "update_stats is_correct now word_stats =
     (let s1 = word_stats\<lparr>total_attempts := total_attempts word_stats + 1,
                          last_seen := Some now\<rparr>;
          s2 = (if is_correct
                then s1\<lparr>correct_count := correct_count s1 + 1,
                        consecutive_correct := consecutive_correct s1 + 1,
                        consecutive_wrong := 0\<rparr>
                else s1\<lparr>wrong_count := wrong_count s1 + 1,
                        consecutive_wrong := consecutive_wrong s1 + 1,
                        consecutive_correct := 0\<rparr>)
      in s2\<lparr>weight := calculate_adaptive_weight s2\<rparr>)"

text \<open>
  The result is the dictionary after the call, and the exception the call ends with, if
  any: the division of line 154, for the log message, raises when the incremented
  \<open>total_attempts\<close> is zero, after the dictionary has been updated.
\<close>

definition update_word_performance ::
  "string \<Rightarrow> string \<Rightarrow> string \<Rightarrow> bool \<Rightarrow> string \<Rightarrow> word_weights
     \<Rightarrow> word_weights \<times> py_error option" where
  "update_word_performance w word_class level is_correct now ww =
     (let k = word_key w word_class level;
          ww1 = (if ww k = None then ww(k \<mapsto> default_stats) else ww);
          word_stats = (case ww1 k of Some s \<Rightarrow> s | None \<Rightarrow> default_stats);
          s' = update_stats is_correct now word_stats
      in (ww1(k \<mapsto> s'),
          if total_attempts s' = 0 then Some ZeroDivisionError else None))"

text \<open>\<open>reset_word_stats\<close> (lines 340-354) and \<open>reset_all_stats\<close> (lines 356-369).\<close>

definition reset_word_stats :: "string \<Rightarrow> string \<Rightarrow> string \<Rightarrow> word_weights \<Rightarrow> word_weights" where
  "reset_word_stats w word_class level ww =
     (let k = word_key w word_class level
      in if ww k \<noteq> None then ww(k \<mapsto> default_stats) else ww)"

definition reset_all_stats :: "word_weights \<Rightarrow> word_weights" where
  "reset_all_stats ww = (\<lambda>k. case ww k of None \<Rightarrow> None | Some s \<Rightarrow> Some default_stats)"

subsection \<open>The weighted draw\<close>

text \<open>
  \<open>random.choices\<close> and \<open>random.choice\<close> belong to Python's standard library. They are
  modelled after CPython: \<open>choices(population, weights, k=1)[0]\<close> accumulates the weights,
  raises \<open>ValueError\<close> when their total is not positive, and returns the element at the
  position that \<open>bisect\<close> finds for \<open>random() * total\<close> among the first \<open>n - 1\<close>
  cumulative weights. The number that \<open>random()\<close> returns is the argument \<open>r\<close>; the random
  index of \<open>random.choice\<close> is the argument \<open>j\<close> modulo the length of the sequence.
\<close>

fun accumulate_from :: "real \<Rightarrow> real list \<Rightarrow> real list" where
  "accumulate_from acc [] = []"
| "accumulate_from acc (x # xs) = (acc + x) # accumulate_from (acc + x) xs"

definition accumulate :: "real list \<Rightarrow> real list" where
  "accumulate xs = (case xs of [] \<Rightarrow> [] | x # rest \<Rightarrow> x # accumulate_from x rest)"

function bisect_right :: "real list \<Rightarrow> real \<Rightarrow> nat \<Rightarrow> nat \<Rightarrow> nat" where
  "bisect_right a x lo hi =
     (if lo < hi
      then (let mid = (lo + hi) div 2
            in if x < a ! mid then bisect_right a x lo mid
               else bisect_right a x (mid + 1) hi)
      else lo)"
  by pat_completeness auto
termination
  by (relation "measure (\<lambda>(a, x, lo, hi). hi - lo)") auto

declare bisect_right.simps [simp del]

definition choices :: "'a list \<Rightarrow> real list \<Rightarrow> real \<Rightarrow> py_error + 'a" where
  "choices population weights r =
     (let n = length population;
          cum_weights = accumulate weights
      in if length cum_weights \<noteq> n then Inl ValueError
         else if cum_weights = [] then Inl IndexError
         else
           let total_weight = last cum_weights
           in if total_weight \<le> 0 then Inl ValueError
              else Inr (population ! bisect_right cum_weights (r * total_weight) 0 (n - 1)))"

definition random_choice :: "'a list \<Rightarrow> nat \<Rightarrow> py_error + 'a" where
  "random_choice seq j = (if seq = [] then Inl IndexError else Inr (seq ! (j mod length seq)))"

text \<open>
  \<open>get_weighted_word\<close> (lines 64-105). \<open>if level:\<close> holds for a string that is not
  empty, so both \<open>None\<close> and the empty string select the whole vocabulary. The three
  definitions before it are the local variables \<open>filtered_df\<close>, \<open>words_data\<close> and
  \<open>weights\<close>.
\<close>

definition filtered_df :: "vocab_row list \<Rightarrow> string option \<Rightarrow> vocab_row list" where
  "filtered_df data_df level =
     (case level of
        None \<Rightarrow> data_df
      | Some l \<Rightarrow> if l \<noteq> [] then filter (\<lambda>row. row_level row = lower l) data_df
                  else data_df)"

definition words_data :: "vocab_row list \<Rightarrow> (string \<times> string \<times> string) list" where
  "words_data rows = map (\<lambda>row. (row_word row, row_class row, row_level row)) rows"

definition weights :: "word_weights \<Rightarrow> vocab_row list \<Rightarrow> real list" where
  "weights ww rows =
     map (\<lambda>row. case ww (word_key (row_word row) (row_class row) (row_level row)) of
                  None \<Rightarrow> 1.0
                | Some s \<Rightarrow> weight s) rows"

definition get_weighted_word ::
  "vocab_row list \<Rightarrow> word_weights \<Rightarrow> string option \<Rightarrow> real \<Rightarrow> nat
     \<Rightarrow> py_error + (string \<times> string \<times> string) option" where
  "get_weighted_word data_df ww level r j =
     (let rows = filtered_df data_df level
      in if rows = [] then Inr None
         else if words_data rows = [] then Inr None
         else
           (case choices (words_data rows) (weights ww rows) r of
              Inr selected_word \<Rightarrow> Inr (Some selected_word)
            | Inl e \<Rightarrow>
                (case random_choice (words_data rows) j of
                   Inr selected_word \<Rightarrow> Inr (Some selected_word)
                 | Inl e' \<Rightarrow> Inl e')))"

text \<open>A sequence of calls of \<open>update_word_performance\<close>, as the game loop makes them.\<close>

fun record_outcomes ::
  "(string \<times> string \<times> string \<times> bool \<times> string) list \<Rightarrow> word_weights \<Rightarrow> word_weights" where
  "record_outcomes [] ww = ww"
| "record_outcomes ((w, c, l, is_correct, now) # calls) ww =
     record_outcomes calls (fst (update_word_performance w c l is_correct now ww))"

text \<open>
  The dictionaries that the class can hold, starting from the empty dictionary of a first
  run: every method that writes \<open>word_weights\<close> is a step.
\<close>

inductive reachable :: "word_weights \<Rightarrow> bool" where
  empty: "reachable Map.empty"
| init: "reachable ww \<Longrightarrow> reachable (initialize_new_words data_df ww)"
| update: "reachable ww \<Longrightarrow> reachable (fst (update_word_performance w c l is_correct now ww))"
| reset_word: "reachable ww \<Longrightarrow> reachable (reset_word_stats w c l ww)"
| reset_all: "reachable ww \<Longrightarrow> reachable (reset_all_stats ww)"

text \<open>The word with key \<open>k\<close> has statistics, with a weight in \<open>[0.1, 5.0]\<close>.\<close>

definition weight_in_range :: "word_weights \<Rightarrow> string \<Rightarrow> bool" where
  "weight_in_range ww k = (\<exists>s. ww k = Some s \<and> 0.1 \<le> weight s \<and> weight s \<le> 5)"

text \<open>The counters of a record are consistent: the attempts are the sum of the correct and
  the wrong answers, the streak counters are not negative, and one of them is zero.\<close>

definition counters_ok :: "word_stats \<Rightarrow> bool" where
  "counters_ok s =
     (total_attempts s = correct_count s + wrong_count s
      \<and> 0 \<le> consecutive_correct s \<and> 0 \<le> consecutive_wrong s
      \<and> (consecutive_correct s = 0 \<or> consecutive_wrong s = 0))"

subsection \<open>The adaptive weight as the specification words it\<close>

text \<open>
  The weight of the specification: the clamp to \<open>[0.1, 5.0]\<close> of the product of the base
  weight of the accuracy bracket, the consecutive-performance multiplier and the
  attempt-count multiplier.
\<close>

definition clamp :: "real \<Rightarrow> real \<Rightarrow> real \<Rightarrow> real" where
  "clamp x lo hi = (if x < lo then lo else if hi < x then hi else x)"

definition spec_accuracy :: "word_stats \<Rightarrow> real" where
  "spec_accuracy s = real_of_int (correct_count s) / real_of_int (total_attempts s)"

definition spec_base :: "real \<Rightarrow> real" where
  "spec_base accuracy =
     (if 0.8 \<le> accuracy then 0.3
      else if 0.6 \<le> accuracy \<and> accuracy < 0.8 then 0.7
      else if 0.4 \<le> accuracy \<and> accuracy < 0.6 then 1.2
      else 2.0)"

definition spec_consecutive_mult :: "word_stats \<Rightarrow> real" where
  "spec_consecutive_mult s =
     (if 3 \<le> consecutive_correct s then 0.5
      else if 2 \<le> consecutive_wrong s then 2.5
      else 1.0)"

definition spec_attempt_mult :: "word_stats \<Rightarrow> real" where
  "spec_attempt_mult s =
     (if total_attempts s \<le> 3 then 1.2
      else if 10 \<le> total_attempts s then 0.9
      else 1.0)"

definition spec_weight :: "word_stats \<Rightarrow> real" where
  "spec_weight s =
     clamp (spec_base (spec_accuracy s) * spec_consecutive_mult s * spec_attempt_mult s) 0.1 5.0"


section \<open>Facts about the string operations\<close>

lemmas string_eval =
  lower_def lower_char_def isupper_def split_def strip_def isspace_def char_of_def
  bit_Suc_0_iff

lemma of_char_lower_char:
  "(of_char (lower_char c) :: nat) = (if isupper c then of_char c + 32 else of_char c)"
  by (auto simp add: lower_char_def isupper_def Let_def of_char_of)

lemma isspace_lower_char: "isspace (lower_char c) = isspace c"
  unfolding isspace_def of_char_lower_char
  by (auto simp add: isupper_def Let_def)

lemma isupper_lower_char: "\<not> isupper (lower_char c)"
  unfolding isupper_def Let_def of_char_lower_char
  by (auto simp add: isupper_def Let_def)

lemma lower_char_idem: "lower_char (lower_char c) = lower_char c"
  using isupper_lower_char [of c] by (simp add: lower_char_def [of "lower_char c"])


lemma last_dropWhile: "dropWhile P xs \<noteq> [] \<Longrightarrow> last (dropWhile P xs) = last xs"
  by (induction xs) (auto split: if_splits)

lemma trimmed_strip: "trimmed (strip s)"
proof (cases "strip s = []")
  case True
  then show ?thesis by (simp add: trimmed_def)
next
  case False
  define a where "a = dropWhile isspace s"
  define b where "b = dropWhile isspace (rev a)"
  have s: "strip s = rev b" by (simp add: strip_def a_def b_def)
  with False have b: "b \<noteq> []" by simp
  then have a: "a \<noteq> []" by (auto simp add: b_def)
  have "\<not> isspace (hd b)" using b unfolding b_def by (rule hd_dropWhile)
  moreover have "last b = hd a"
    using last_dropWhile [of isspace "rev a"] b a by (simp add: b_def last_rev)
  moreover have "\<not> isspace (hd a)" using a unfolding a_def by (rule hd_dropWhile)
  ultimately show ?thesis
    using b by (simp add: trimmed_def s hd_rev last_rev)
qed

lemma trimmed_lower: "trimmed u \<Longrightarrow> trimmed (lower u)"
  by (auto simp add: trimmed_def lower_def hd_map last_map isspace_lower_char)

lemma trimmed_normalize: "trimmed (normalize s)"
  by (simp add: trimmed_lower trimmed_strip)

lemma strip_trimmed: "trimmed u \<Longrightarrow> strip u = u"
proof (cases u)
  case Nil
  then show ?thesis by (simp add: strip_def)
next
  case (Cons c cs)
  assume "trimmed u"
  with Cons have h: "\<not> isspace c" and l: "\<not> isspace (last u)"
    by (simp_all add: trimmed_def)
  from Cons have "rev u \<noteq> []" by simp
  then obtain d ds where r: "rev u = d # ds" by (cases "rev u") auto
  then have "d = last u" using Cons by (metis hd_rev list.sel(1) list.distinct(1))
  with l have "dropWhile isspace (d # ds) = d # ds" by simp
  with r have "dropWhile isspace (rev u) = rev u" by simp
  moreover from h Cons have "dropWhile isspace u = u" by simp
  ultimately show ?thesis by (simp add: strip_def)
qed

lemma split_from_no_space:
  "\<forall>c\<in>set s. \<not> isspace c \<Longrightarrow> split_from cur s = (if cur @ s = [] then [] else [cur @ s])"
  by (induction s arbitrary: cur) auto

lemma split_from_space:
  "\<forall>c\<in>set a. \<not> isspace c \<Longrightarrow> isspace sp \<Longrightarrow>
   split_from cur (a @ sp # rest) =
     (if cur @ a = [] then split_from [] rest else (cur @ a) # split_from [] rest)"
  by (induction a arbitrary: cur) auto

lemma split_from_token:
  "t \<in> set (split_from cur s) \<Longrightarrow> \<forall>c\<in>set cur. \<not> isspace c \<Longrightarrow>
   t \<noteq> [] \<and> (\<forall>c\<in>set t. \<not> isspace c) \<and> set t \<subseteq> set cur \<union> set s"
proof (induction s arbitrary: cur)
  case Nil
  then show ?case by (auto split: if_splits)
next
  case (Cons c cs)
  show ?case
  proof (cases "isspace c")
    case True
    with Cons.prems have "t = cur \<and> cur \<noteq> [] \<or> t \<in> set (split_from [] cs)"
      by (auto split: if_splits)
    then show ?thesis
    proof
      assume "t = cur \<and> cur \<noteq> []"
      with Cons.prems show ?thesis by auto
    next
      assume "t \<in> set (split_from [] cs)"
      from Cons.IH [OF this] show ?thesis by auto
    qed
  next
    case False
    with Cons.prems have "t \<in> set (split_from (cur @ [c]) cs)" by simp
    moreover from False Cons.prems have "\<forall>x\<in>set (cur @ [c]). \<not> isspace x" by auto
    ultimately have "t \<noteq> [] \<and> (\<forall>c\<in>set t. \<not> isspace c) \<and> set t \<subseteq> set (cur @ [c]) \<union> set cs"
      by (rule Cons.IH)
    then show ?thesis by auto
  qed
qed

lemma split_token:
  "t \<in> set (split s) \<Longrightarrow> t \<noteq> [] \<and> (\<forall>c\<in>set t. \<not> isspace c) \<and> set t \<subseteq> set s"
  using split_from_token [of t "[]" s] by (simp add: split_def)

lemma split_from_empty:
  "split_from cur s = [] \<Longrightarrow> cur = [] \<and> (\<forall>c\<in>set s. isspace c)"
  by (induction s arbitrary: cur) (auto split: if_splits)

lemma split_from_single:
  "split_from cur s = [t] \<Longrightarrow> cur \<noteq> [] \<or> s = [] \<or> \<not> isspace (hd s) \<Longrightarrow>
   s = [] \<or> \<not> isspace (last s) \<Longrightarrow> cur @ s = t"
proof (induction s arbitrary: cur)
  case Nil
  then show ?case by (auto split: if_splits)
next
  case (Cons c cs)
  show ?case
  proof (cases "isspace c")
    case True
    with Cons.prems have cur: "cur \<noteq> []" by auto
    with True Cons.prems have "split_from [] cs = []" by simp
    then have all: "\<forall>x\<in>set cs. isspace x" by (auto dest: split_from_empty)
    from True Cons.prems(3) have "cs \<noteq> []" by auto
    with Cons.prems(3) have "\<not> isspace (last cs)" by simp
    moreover from \<open>cs \<noteq> []\<close> have "last cs \<in> set cs" by simp
    ultimately show ?thesis using all by blast
  next
    case False
    with Cons.prems have "split_from (cur @ [c]) cs = [t]" by simp
    moreover have "cur @ [c] \<noteq> [] \<or> cs = [] \<or> \<not> isspace (hd cs)" by simp
    moreover from Cons.prems(3) have "cs = [] \<or> \<not> isspace (last cs)"
      by (auto split: if_splits)
    ultimately have "(cur @ [c]) @ cs = t" by (rule Cons.IH)
    then show ?thesis by simp
  qed
qed

lemma split_single_trimmed: "split u = [t] \<Longrightarrow> trimmed u \<Longrightarrow> u = t"
  using split_from_single [of "[]" u t] by (auto simp add: split_def trimmed_def)

lemma split_normalize_single: "split (normalize s) = [t] \<Longrightarrow> normalize s = t"
  by (rule split_single_trimmed [OF _ trimmed_normalize])

lemma normalize_Nil: "normalize [] = []"
  by (simp add: lower_def strip_def)

lemma split_Nil: "split [] = []"
  by (simp add: split_def)

section \<open>Facts about validate_user_input\<close>

lemma word_in_meaning_iff: "word_in_meaning w ws = (w \<in> set ws)"
  by (induction ws) auto

lemma check_meanings_iff: "check_meanings u ms = (\<exists>m\<in>set ms. meaning_accepts u m)"
  by (induction ms) (auto simp add: Let_def word_in_meaning_iff meaning_accepts_def)

lemma validate_user_input_iff:
  "validate_user_input inp ms =
     (inp \<noteq> [] \<and> (\<exists>m\<in>set ms. meaning_accepts (normalize inp) m))"
  by (auto simp add: validate_user_input_def check_meanings_iff)

section \<open>Claims about the answer validator\<close>

text \<open>
  Claim C2. When the input normalizes (strip, then lower) to exactly one whitespace-delimited
  token \<open>t\<close>: if \<open>t\<close> has at least 3 characters, the validator accepts exactly when \<open>t\<close>
  equals a whole normalized meaning or equals one of the whitespace-delimited tokens of a
  normalized meaning (full token equality, so a strict substring of a token does not
  count); if \<open>t\<close> has fewer than 3 characters, it accepts exactly when \<open>t\<close> equals a whole
  normalized meaning.
\<close>

theorem single_word_rule:
  assumes "split (normalize inp) = [t]"
  shows "validate_user_input inp ms =
           (if 3 \<le> length t
            then (\<exists>m\<in>set ms. t = normalize m \<or> t \<in> set (split (normalize m)))
            else (\<exists>m\<in>set ms. t = normalize m))"
proof -
  from assms have u: "normalize inp = t" by (rule split_normalize_single)
  from assms have "inp \<noteq> []" by (auto simp add: normalize_Nil split_Nil)
  moreover from assms u have "split t = [t]" by simp
  ultimately show ?thesis
    by (simp add: validate_user_input_iff meaning_accepts_def u)
qed

text \<open>
  The theorem at the inputs of the claim: \<open>ke\<close> against \<open>ke arah, menuju\<close> is rejected and
  \<open>ke\<close> against \<open>ke\<close> is accepted; \<open>arah\<close> is a token of a meaning and is accepted, its
  substring \<open>ara\<close> is not.
\<close>

theorem single_word_rule_witness:
  "split (normalize ''ke'') = [''ke'']
   \<and> validate_user_input ''ke'' [''ke arah'', ''menuju''] = False
   \<and> validate_user_input ''ke'' [''ke''] = True
   \<and> split (normalize '' Arah '') = [''arah'']
   \<and> validate_user_input '' Arah '' [''ke arah'', ''menuju''] = True
   \<and> validate_user_input ''ara'' [''ke arah'', ''menuju''] = False"
  using single_word_rule [of "''ke''" "''ke''" "[''ke arah'', ''menuju'']"]
    single_word_rule [of "''ke''" "''ke''" "[''ke'']"]
    single_word_rule [of "'' Arah ''" "''arah''" "[''ke arah'', ''menuju'']"]
    single_word_rule [of "''ara''" "''ara''" "[''ke arah'', ''menuju'']"]
  by (simp add: string_eval)

text \<open>
  Claim C3. When the input normalizes to more than one token, the validator accepts exactly
  when the set of input tokens is a subset of the token set of some single accepted meaning
  (or the whole normalized input equals a normalized meaning). Hence the result is the same
  for any other multi-token input with the same token set (reordered or duplicated
  tokens), and for any permutation of the list of meanings.
\<close>

theorem multi_word_rule:
  "1 < length (split (normalize inp)) \<Longrightarrow>
     validate_user_input inp ms =
       (\<exists>m\<in>set ms. normalize inp = normalize m
                    \<or> set (split (normalize inp)) \<subseteq> set (split (normalize m)))
     \<and> (\<forall>inp'. 1 < length (split (normalize inp'))
               \<and> set (split (normalize inp')) = set (split (normalize inp))
            \<longrightarrow> validate_user_input inp' ms = validate_user_input inp ms)
     \<and> (\<forall>ms'. mset ms' = mset ms
            \<longrightarrow> validate_user_input inp ms' = validate_user_input inp ms)"
proof -
  have multi: "validate_user_input x ms =
       (\<exists>m\<in>set ms. set (split (normalize x)) \<subseteq> set (split (normalize m)))"
    if "1 < length (split (normalize x))" for x
  proof -
    from that have "x \<noteq> []" by (auto simp add: normalize_Nil split_Nil)
    with that show ?thesis
      by (auto simp add: validate_user_input_iff meaning_accepts_def)
  qed
  have perm: "validate_user_input inp ms' = validate_user_input inp ms"
    if "mset ms' = mset ms" for ms'
  proof -
    from that have "set ms' = set ms" by (rule mset_eq_setD)
    then show ?thesis by (simp add: validate_user_input_iff)
  qed
  assume "1 < length (split (normalize inp))"
  then show ?thesis using multi perm by auto
qed

theorem multi_word_rule_witness:
  "1 < length (split (normalize ''tinggal tempat''))
   \<and> validate_user_input ''tinggal tempat'' [''rumah'', ''tempat tinggal''] = True
   \<and> validate_user_input ''Tempat  tinggal tempat'' [''rumah'', ''tempat tinggal''] = True
   \<and> validate_user_input ''tinggal tempat'' [''tempat tinggal'', ''rumah''] = True"
proof -
  let ?ms = "[''rumah'', ''tempat tinggal'']"
  have h: "1 < length (split (normalize ''tinggal tempat''))"
    by (simp add: string_eval)
  have h2: "1 < length (split (normalize ''Tempat  tinggal tempat''))
            \<and> set (split (normalize ''Tempat  tinggal tempat''))
                = set (split (normalize ''tinggal tempat''))"
    by (auto simp add: string_eval)
  have h3: "mset [''tempat tinggal'', ''rumah''] = mset ?ms"
    by simp
  note r = multi_word_rule [OF h, of ?ms]
  from r have a: "validate_user_input ''tinggal tempat'' ?ms = True"
    by (simp add: string_eval)
  from r h2 have b: "validate_user_input ''Tempat  tinggal tempat'' ?ms
                     = validate_user_input ''tinggal tempat'' ?ms"
    by blast
  from r h3 have c: "validate_user_input ''tinggal tempat'' [''tempat tinggal'', ''rumah'']
                     = validate_user_input ''tinggal tempat'' ?ms"
    by blast
  from h a b c show ?thesis by simp
qed

text \<open>
  Claim C9. The 3-character minimum of the single-word rule is bypassed by repeating the
  token: a token \<open>t\<close> shorter than 3 characters that occurs as a whole token of some
  accepted meaning, and equals no whole normalized meaning, is rejected on its own, while
  \<open>t\<close>, a space and \<open>t\<close> again is accepted by the multi-word rule.
\<close>

theorem short_token_bypass:
  assumes "m \<in> set ms" and "t \<in> set (split (normalize m))" and "length t < 3"
    and "\<forall>m'\<in>set ms. t \<noteq> normalize m'"
  shows "validate_user_input t ms = False \<and> validate_user_input (t @ '' '' @ t) ms = True"
proof -
  from assms(2) have t: "t \<noteq> []" and ns: "\<forall>c\<in>set t. \<not> isspace c"
    and sub: "set t \<subseteq> set (normalize m)"
    using split_token [of t "normalize m"] by auto
  have sp: "isspace CHR '' ''" by (simp add: isspace_def)
  from t ns have tr: "trimmed t" by (simp add: trimmed_def)
  have low: "lower t = t"
  proof -
    have "lower_char c = c" if "c \<in> set t" for c
    proof -
      from that sub have "c \<in> set (map lower_char (strip m))" by (auto simp add: lower_def)
      then obtain d where "c = lower_char d" by auto
      then show ?thesis by (simp add: lower_char_idem)
    qed
    then show ?thesis by (simp add: lower_def map_idI)
  qed
  from tr low have nt: "normalize t = t" by (simp add: strip_trimmed)
  from t ns have st: "split t = [t]" by (simp add: split_def split_from_no_space)
  have first: "validate_user_input t ms = False"
    using assms(3,4) t by (simp add: validate_user_input_iff meaning_accepts_def nt st)
  let ?d = "t @ '' '' @ t"
  from t ns have "trimmed ?d" by (simp add: trimmed_def)
  then have "strip ?d = ?d" by (rule strip_trimmed)
  moreover have "lower ?d = ?d"
    using low by (simp add: lower_def lower_char_def isupper_def)
  ultimately have nd: "normalize ?d = ?d" by simp
  have sd: "split ?d = [t, t]"
    using split_from_space [OF ns sp, of "[]" t] t ns
    by (simp add: split_def split_from_no_space)
  from assms(1,2) have "\<exists>m\<in>set ms. meaning_accepts ?d m"
    unfolding meaning_accepts_def nd sd by auto
  then have "validate_user_input ?d ms = True"
    unfolding validate_user_input_iff nd using t by simp
  with first show ?thesis by simp
qed

theorem short_token_bypass_witness:
  "''ke arah'' \<in> set [''ke arah'', ''menuju'']
   \<and> ''ke'' \<in> set (split (normalize ''ke arah''))
   \<and> length ''ke'' < 3
   \<and> ''ke'' \<noteq> normalize ''ke arah'' \<and> ''ke'' \<noteq> normalize ''menuju''
   \<and> validate_user_input ''ke'' [''ke arah'', ''menuju''] = False
   \<and> validate_user_input ''ke ke'' [''ke arah'', ''menuju''] = True"
  using short_token_bypass [of "''ke arah''" "[''ke arah'', ''menuju'']" "''ke''"]
  by (simp add: string_eval)

lemma strip_blank: "\<forall>c\<in>set inp. isspace c \<Longrightarrow> strip inp = []"
proof -
  assume "\<forall>c\<in>set inp. isspace c"
  then have d: "dropWhile isspace inp = []" by (induction inp) auto
  show ?thesis unfolding strip_def d by simp
qed

text \<open>
  Claim C7 says that a whitespace-only input is rejected whatever the meanings are. The
  test of line 112 looks at the raw argument and the input is stripped afterwards, on line
  116: an input of one space passes the test, is stripped to the empty string, and equals
  a meaning that is empty after cleaning, so the validator returns \<open>True\<close>.
\<close>

theorem blank_input_accepted:
  "isspace CHR '' '' \<and> validate_user_input '' '' [''''] = True"
  by (simp add: validate_user_input_def string_eval)

text \<open>
  Claim C7, amended. The validator rejects the empty input and the empty list of
  meanings. A whitespace-only input is rejected once it has been stripped, which is how
  the game loop passes the answer (\<open>game.py\<close>, lines 284 and 312); passed unstripped, it is
  rejected whenever no accepted meaning normalizes to the empty string, and is accepted
  exactly through such a meaning. The result is a truth value in every case: the function
  does not raise.
\<close>

theorem blank_input_rejected:
  "validate_user_input [] ms = False
   \<and> validate_user_input inp [] = False
   \<and> ((\<forall>c\<in>set inp. isspace c) \<longrightarrow>
         validate_user_input (strip inp) ms = False
         \<and> ((\<forall>m\<in>set ms. normalize m \<noteq> []) \<longrightarrow> validate_user_input inp ms = False)
         \<and> validate_user_input inp ms = (inp \<noteq> [] \<and> (\<exists>m\<in>set ms. normalize m = [])))"
proof -
  have a: "validate_user_input [] ms = False" by (simp add: validate_user_input_def)
  have b: "validate_user_input inp [] = False" by (simp add: validate_user_input_def)
  have c: "validate_user_input (strip inp) ms = False
           \<and> ((\<forall>m\<in>set ms. normalize m \<noteq> []) \<longrightarrow> validate_user_input inp ms = False)
           \<and> validate_user_input inp ms = (inp \<noteq> [] \<and> (\<exists>m\<in>set ms. normalize m = []))"
    if ws: "\<forall>c\<in>set inp. isspace c"
  proof -
    from ws have s: "strip inp = []" by (rule strip_blank)
    then have n: "normalize inp = []" by (simp add: lower_def)
    have iff: "validate_user_input inp ms = (inp \<noteq> [] \<and> (\<exists>m\<in>set ms. normalize m = []))"
      by (simp add: validate_user_input_iff meaning_accepts_def n split_Nil
          eq_commute [of "[]"])
    have "validate_user_input (strip inp) ms = False"
      unfolding s by (simp add: validate_user_input_def)
    moreover from iff
    have "(\<forall>m\<in>set ms. normalize m \<noteq> []) \<longrightarrow> validate_user_input inp ms = False"
      by simp
    ultimately show ?thesis using iff by blast
  qed
  from a b c show ?thesis by blast
qed

text \<open>
  An answer of two spaces: rejected against real meanings, and rejected against a blank
  meaning once it is stripped; the empty answer and the empty list of meanings are
  rejected.
\<close>

theorem blank_input_rejected_witness:
  "isspace CHR '' ''
   \<and> validate_user_input ''  '' [''rumah'', ''tempat tinggal''] = False
   \<and> validate_user_input (strip ''  '') [''''] = False
   \<and> validate_user_input [] [''''] = False
   \<and> validate_user_input ''rumah'' [] = False"
proof -
  have ws: "\<forall>c\<in>set ''  ''. isspace c" by (simp add: isspace_def)
  have nb: "\<forall>m\<in>set [''rumah'', ''tempat tinggal'']. normalize m \<noteq> []"
    by (simp add: string_eval)
  note r1 = blank_input_rejected [of "[''rumah'', ''tempat tinggal'']" "''  ''"]
  note r2 = blank_input_rejected [of "['''']" "''  ''"]
  note r3 = blank_input_rejected [of "['''']" "''rumah''"]
  from r1 ws nb have "validate_user_input ''  '' [''rumah'', ''tempat tinggal''] = False"
    by blast
  moreover from r2 ws have "validate_user_input (strip ''  '') [''''] = False" by blast
  moreover from r2 have "validate_user_input [] [''''] = False" by blast
  moreover from r3 have "validate_user_input ''rumah'' [] = False" by blast
  moreover have "isspace CHR '' ''" by (simp add: isspace_def)
  ultimately show ?thesis by blast
qed

section \<open>Facts about the adaptive weight\<close>

lemma base_weight_spec:
  "(if a \<ge> 0.8 then 0.3 else if a \<ge> 0.6 then 0.7 else if a \<ge> 0.4 then 1.2 else 2.0)
     = spec_base a"
  by (simp add: spec_base_def)

lemma calculate_adaptive_weight_unfold:
  "calculate_adaptive_weight s =
     (if total_attempts s = 0 then 1
      else max 0.1 (min 5 (spec_base (spec_accuracy s) * spec_consecutive_mult s
                             * spec_attempt_mult s)))"
proof -
  have "calculate_adaptive_weight s =
     (if total_attempts s = 0 then 1.0
      else max 0.1 (min 5.0
        ((if spec_accuracy s \<ge> 0.8 then 0.3 else if spec_accuracy s \<ge> 0.6 then 0.7
          else if spec_accuracy s \<ge> 0.4 then 1.2 else 2.0)
         * spec_consecutive_mult s * spec_attempt_mult s)))"
    by (simp only: calculate_adaptive_weight_def Let_def spec_accuracy_def
        spec_consecutive_mult_def spec_attempt_mult_def)
  then show ?thesis by (simp only: base_weight_spec) simp
qed

lemma spec_parts_ignore_weight:
  "spec_accuracy (s\<lparr>weight := x\<rparr>) = spec_accuracy s"
  "spec_consecutive_mult (s\<lparr>weight := x\<rparr>) = spec_consecutive_mult s"
  "spec_attempt_mult (s\<lparr>weight := x\<rparr>) = spec_attempt_mult s"
  by (simp_all add: spec_accuracy_def spec_consecutive_mult_def spec_attempt_mult_def)

lemma calculate_adaptive_weight_ignores_weight:
  "calculate_adaptive_weight (s\<lparr>weight := x\<rparr>) = calculate_adaptive_weight s"
  by (simp add: calculate_adaptive_weight_unfold spec_parts_ignore_weight)

lemma weight_update_stats:
  "weight (update_stats ok now s) = calculate_adaptive_weight (update_stats ok now s)"
  by (simp add: update_stats_def Let_def calculate_adaptive_weight_ignores_weight)

lemma update_word_performance_lookup:
  "fst (update_word_performance w c l ok now ww) k =
     (if k = word_key w c l
      then Some (update_stats ok now (case ww k of Some s \<Rightarrow> s | None \<Rightarrow> default_stats))
      else ww k)"
  by (simp add: update_word_performance_def Let_def split: option.splits)


lemma clamp_max_min: "max 0.1 (min 5 p) = clamp p 0.1 5.0"
  by (simp add: clamp_def max_def min_def)

lemma max_min_bounds: "(0.1::real) \<le> max 0.1 (min 5 p) \<and> max 0.1 (min 5 p) \<le> 5"
  by (auto simp add: max_def min_def)

lemma calculate_adaptive_weight_bounds:
  "0.1 \<le> calculate_adaptive_weight s \<and> calculate_adaptive_weight s \<le> 5"
proof (cases "total_attempts s = 0")
  case True
  then show ?thesis by (simp add: calculate_adaptive_weight_unfold)
next
  case False
  then show ?thesis
    using max_min_bounds by (simp only: calculate_adaptive_weight_unfold if_False)
qed

lemma calculate_adaptive_weight_spec:
  "total_attempts s \<noteq> 0 \<Longrightarrow> calculate_adaptive_weight s = spec_weight s"
  by (simp add: calculate_adaptive_weight_unfold clamp_max_min spec_weight_def)


section \<open>Claims about the adaptive weight\<close>

text \<open>
  Claim C1. For a record with \<open>total_attempts > 0\<close> the weight that the code computes is
  the weight of the specification: the clamp to \<open>[0.1, 5.0]\<close> of base times
  consecutive-multiplier times attempt-multiplier, with the brackets of the specification.
  A record with \<open>total_attempts = 0\<close> gets weight 1.0. The weight that
  \<open>update_word_performance\<close> stores for the word is the computed weight of the updated
  record.
\<close>

theorem recorded_weight_follows_spec:
  "(0 < total_attempts s \<longrightarrow> calculate_adaptive_weight s = spec_weight s)
   \<and> (total_attempts s = 0 \<longrightarrow> calculate_adaptive_weight s = 1)
   \<and> (\<exists>s'. fst (update_word_performance w c l ok now ww) (word_key w c l) = Some s'
            \<and> weight s' = calculate_adaptive_weight s')"
proof -
  have "0 < total_attempts s \<longrightarrow> calculate_adaptive_weight s = spec_weight s"
    by (simp add: calculate_adaptive_weight_spec)
  moreover have "total_attempts s = 0 \<longrightarrow> calculate_adaptive_weight s = 1"
    by (simp add: calculate_adaptive_weight_unfold)
  moreover have "\<exists>s'. fst (update_word_performance w c l ok now ww) (word_key w c l) = Some s'
            \<and> weight s' = calculate_adaptive_weight s'"
    by (simp add: update_word_performance_lookup weight_update_stats)
  ultimately show ?thesis by blast
qed

text \<open>
  A record with 3 correct answers out of 4 and a streak of 2, answered correctly once more:
  accuracy 0.8, streak 3, 5 attempts, so \<open>0.3 * 0.5 * 1.0 = 0.15\<close>.
\<close>

theorem recorded_weight_follows_spec_witness:
  "0 < total_attempts (update_stats True ''t5'' \<lparr>weight = 1, correct_count = 3, wrong_count = 1,
        total_attempts = 4, last_seen = None, consecutive_correct = 2, consecutive_wrong = 0\<rparr>)
   \<and> calculate_adaptive_weight (update_stats True ''t5'' \<lparr>weight = 1, correct_count = 3,
        wrong_count = 1, total_attempts = 4, last_seen = None, consecutive_correct = 2,
        consecutive_wrong = 0\<rparr>) = 0.15
   \<and> spec_weight (update_stats True ''t5'' \<lparr>weight = 1, correct_count = 3,
        wrong_count = 1, total_attempts = 4, last_seen = None, consecutive_correct = 2,
        consecutive_wrong = 0\<rparr>) = 0.15
   \<and> total_attempts default_stats = 0
   \<and> calculate_adaptive_weight default_stats = 1"
  using recorded_weight_follows_spec [of "update_stats True ''t5'' \<lparr>weight = 1,
        correct_count = 3, wrong_count = 1, total_attempts = 4, last_seen = None,
        consecutive_correct = 2, consecutive_wrong = 0\<rparr>"]
    recorded_weight_follows_spec [of default_stats]
  by (simp add: update_stats_def default_stats_def spec_weight_def spec_base_def
      spec_accuracy_def spec_consecutive_mult_def spec_attempt_mult_def clamp_def)

lemma update_sets_range:
  "weight_in_range (fst (update_word_performance w c l ok now ww)) (word_key w c l)"
proof -
  let ?s = "update_stats ok now
              (case ww (word_key w c l) of Some s \<Rightarrow> s | None \<Rightarrow> default_stats)"
  have "fst (update_word_performance w c l ok now ww) (word_key w c l) = Some ?s"
    by (simp add: update_word_performance_lookup)
  moreover have "0.1 \<le> weight ?s \<and> weight ?s \<le> 5"
    by (simp only: weight_update_stats calculate_adaptive_weight_bounds)
  ultimately show ?thesis unfolding weight_in_range_def by blast
qed

lemma update_keeps_range:
  assumes "weight_in_range ww k"
  shows "weight_in_range (fst (update_word_performance w c l ok now ww)) k"
proof (cases "k = word_key w c l")
  case True
  then show ?thesis by (simp only: update_sets_range)
next
  case False
  with assms show ?thesis
    by (simp add: weight_in_range_def update_word_performance_lookup)
qed

lemma record_outcomes_keeps_range:
  "weight_in_range ww k \<Longrightarrow> weight_in_range (record_outcomes calls ww) k"
proof (induction calls arbitrary: ww)
  case Nil
  then show ?case by simp
next
  case (Cons call calls)
  obtain w c l ok now where call: "call = (w, c, l, ok, now)" by (cases call) auto
  from Cons.prems
  have "weight_in_range (fst (update_word_performance w c l ok now ww)) k"
    by (rule update_keeps_range)
  then show ?case unfolding call record_outcomes.simps by (rule Cons.IH)
qed

lemma record_outcomes_sets_range:
  "(w, c, l, ok, now) \<in> set calls \<Longrightarrow>
   weight_in_range (record_outcomes calls ww) (word_key w c l)"
proof (induction calls arbitrary: ww)
  case Nil
  then show ?case by simp
next
  case (Cons call calls)
  show ?case
  proof (cases "call = (w, c, l, ok, now)")
    case True
    show ?thesis
      unfolding True record_outcomes.simps
      by (rule record_outcomes_keeps_range) (rule update_sets_range)
  next
    case False
    with Cons.prems have mem: "(w, c, l, ok, now) \<in> set calls" by simp
    obtain w' c' l' ok' now' where call: "call = (w', c', l', ok', now')"
      by (cases call) auto
    show ?thesis unfolding call record_outcomes.simps using mem by (rule Cons.IH)
  qed
qed


text \<open>
  Claim C4. After any sequence of calls of \<open>update_word_performance\<close>, on any words, in any
  mix of correct and incorrect outcomes, and from any dictionary, every word that a call
  of the sequence has updated has a weight in the closed interval \<open>[0.1, 5.0]\<close>. A prefix of
  a sequence is a sequence, so this holds after each call.
\<close>

theorem weight_in_range_after_outcomes:
  "(w, c, l, ok, now) \<in> set calls \<Longrightarrow>
   \<exists>s. record_outcomes calls ww (word_key w c l) = Some s
       \<and> 0.1 \<le> weight s \<and> weight s \<le> 5"
  using record_outcomes_sets_range [of w c l ok now calls ww]
  unfolding weight_in_range_def .

theorem weight_in_range_after_outcomes_witness:
  "(''cat'', ''noun'', ''a1'', False, ''t2'')
     \<in> set [(''cat'', ''noun'', ''a1'', False, ''t1''), (''cat'', ''noun'', ''a1'', False, ''t2'')]
   \<and> map_option weight
        (record_outcomes
           [(''cat'', ''noun'', ''a1'', False, ''t1''), (''cat'', ''noun'', ''a1'', False, ''t2'')]
           Map.empty ''cat_noun_a1'') = Some 5"
  using weight_in_range_after_outcomes [of "''cat''" "''noun''" "''a1''" False "''t2''"
      "[(''cat'', ''noun'', ''a1'', False, ''t1''), (''cat'', ''noun'', ''a1'', False, ''t2'')]"
      Map.empty]
  by (simp add: update_word_performance_lookup word_key_def update_stats_def default_stats_def
      calculate_adaptive_weight_unfold spec_base_def spec_accuracy_def
      spec_consecutive_mult_def spec_attempt_mult_def)

lemma update_stats_counters:
  "total_attempts (update_stats ok now s) = total_attempts s + 1"
  "correct_count (update_stats ok now s) = correct_count s + (if ok then 1 else 0)"
  "wrong_count (update_stats ok now s) = wrong_count s + (if ok then 0 else 1)"
  "consecutive_correct (update_stats ok now s) = (if ok then consecutive_correct s + 1 else 0)"
  "consecutive_wrong (update_stats ok now s) = (if ok then 0 else consecutive_wrong s + 1)"
  by (simp_all add: update_stats_def Let_def)

lemma spec_base_range: "0.3 \<le> spec_base a \<and> spec_base a \<le> 2"
  by (simp add: spec_base_def)

lemma spec_attempt_mult_range: "0.9 \<le> spec_attempt_mult s \<and> spec_attempt_mult s \<le> 1.2"
  by (simp add: spec_attempt_mult_def)

lemma clamp_within: "lo \<le> p \<Longrightarrow> p \<le> hi \<Longrightarrow> max lo (min hi p) = (p::real)"
  by (simp add: max_def min_def)

lemma streak_product_unclamped:
  assumes "0.3 \<le> b \<and> b \<le> 2" and "0.9 \<le> a \<and> a \<le> 1.2"
  shows "max 0.1 (min 5 (b * 0.5 * a)) = b * 0.5 * (a::real)"
proof -
  have "0.3 * 0.9 \<le> b * a" using assms by (intro mult_mono) auto
  moreover have "b * a \<le> 2 * 1.2" using assms by (intro mult_mono) auto
  ultimately have lo: "0.1 \<le> b * 0.5 * a" and hi: "b * 0.5 * a \<le> 5" by simp_all
  from lo hi show ?thesis by (rule clamp_within)
qed

lemma streak_weight:
  assumes "3 \<le> consecutive_correct s" and "total_attempts s \<noteq> 0"
  shows "calculate_adaptive_weight s = spec_base (spec_accuracy s) * 0.5 * spec_attempt_mult s"
proof -
  from assms(1) have cm: "spec_consecutive_mult s = 0.5"
    by (simp add: spec_consecutive_mult_def)
  from assms(2) have "calculate_adaptive_weight s =
      max 0.1 (min 5 (spec_base (spec_accuracy s) * 0.5 * spec_attempt_mult s))"
    by (simp only: calculate_adaptive_weight_unfold cm if_False)
  also have "\<dots> = spec_base (spec_accuracy s) * 0.5 * spec_attempt_mult s"
    using spec_base_range spec_attempt_mult_range by (rule streak_product_unclamped)
  finally show ?thesis .
qed


text \<open>
  Claim C8. From any starting record with non-negative counters (or no record at all), after
  three correct outcomes in a row the streak counter is at least 3, so the multiplier 0.5
  applies, and the stored weight is at most base times 0.5 times attempt-multiplier of the
  resulting record: the clamp does not raise the product.
\<close>

theorem streak_dominance:
  assumes "ww (word_key w c l) = None
           \<or> (\<exists>s0. ww (word_key w c l) = Some s0
                    \<and> 0 \<le> consecutive_correct s0 \<and> 0 \<le> total_attempts s0)"
  shows "\<exists>s. record_outcomes [(w, c, l, True, n1), (w, c, l, True, n2), (w, c, l, True, n3)] ww
               (word_key w c l) = Some s
            \<and> 3 \<le> consecutive_correct s
            \<and> weight s \<le> spec_base (spec_accuracy s) * 0.5 * spec_attempt_mult s"
proof -
  define s0 where "s0 = (case ww (word_key w c l) of Some s \<Rightarrow> s | None \<Rightarrow> default_stats)"
  define s3 where "s3 = update_stats True n3 (update_stats True n2 (update_stats True n1 s0))"
  from assms have nonneg: "0 \<le> consecutive_correct s0 \<and> 0 \<le> total_attempts s0"
    by (auto simp add: s0_def default_stats_def)
  have run: "record_outcomes [(w, c, l, True, n1), (w, c, l, True, n2), (w, c, l, True, n3)] ww
               (word_key w c l) = Some s3"
    by (simp add: update_word_performance_lookup s3_def s0_def)
  from nonneg have streak: "3 \<le> consecutive_correct s3" and att: "total_attempts s3 \<noteq> 0"
    by (simp_all add: s3_def update_stats_counters)
  have "weight s3 = calculate_adaptive_weight s3"
    unfolding s3_def by (rule weight_update_stats)
  also have "\<dots> = spec_base (spec_accuracy s3) * 0.5 * spec_attempt_mult s3"
    using streak att by (rule streak_weight)
  finally have "weight s3 \<le> spec_base (spec_accuracy s3) * 0.5 * spec_attempt_mult s3"
    by simp
  with run streak show ?thesis by blast
qed

theorem streak_dominance_witness:
  "Map.empty (word_key ''cat'' ''noun'' ''a1'') = (None :: word_stats option)
   \<and> map_option weight
        (record_outcomes [(''cat'', ''noun'', ''a1'', True, ''t1''),
           (''cat'', ''noun'', ''a1'', True, ''t2''), (''cat'', ''noun'', ''a1'', True, ''t3'')]
           Map.empty (word_key ''cat'' ''noun'' ''a1'')) = Some 0.18"
  using streak_dominance [of Map.empty "''cat''" "''noun''" "''a1''" "''t1''" "''t2''" "''t3''"]
  by (simp add: update_word_performance_lookup word_key_def update_stats_def default_stats_def
      calculate_adaptive_weight_unfold spec_base_def spec_accuracy_def
      spec_consecutive_mult_def spec_attempt_mult_def)

section \<open>Claims about the counters\<close>

lemma counters_ok_default: "counters_ok default_stats"
  by (simp add: counters_ok_def default_stats_def)

lemma counters_ok_update_stats: "counters_ok s \<Longrightarrow> counters_ok (update_stats ok now s)"
  by (simp add: counters_ok_def update_stats_counters)

lemma one_streak_after_update:
  "counters_ok s \<Longrightarrow>
   (consecutive_correct (update_stats ok now s) \<noteq> 0)
     \<noteq> (consecutive_wrong (update_stats ok now s) \<noteq> 0)"
  by (simp add: counters_ok_def update_stats_counters)

lemma initialize_new_words_lookup:
  "initialize_new_words rows ww k = Some s \<Longrightarrow> ww k = Some s \<or> s = default_stats"
proof (induction rows arbitrary: ww)
  case Nil
  then show ?case by simp
next
  case (Cons row rows)
  let ?k = "word_key (row_word row) (row_class row) (row_level row)"
  let ?ww = "if ww ?k = None then ww(?k \<mapsto> default_stats) else ww"
  from Cons.prems have "initialize_new_words rows ?ww k = Some s" by (simp add: Let_def)
  then have "?ww k = Some s \<or> s = default_stats" by (rule Cons.IH)
  then show ?case by (auto split: if_splits)
qed

lemma reset_word_stats_lookup:
  "reset_word_stats w c l ww k = Some s \<Longrightarrow> ww k = Some s \<or> s = default_stats"
  by (auto simp add: reset_word_stats_def Let_def split: if_splits)

lemma reset_all_stats_lookup: "reset_all_stats ww k = Some s \<Longrightarrow> s = default_stats"
  by (auto simp add: reset_all_stats_def split: option.splits)

lemma reachable_counters_ok: "reachable ww \<Longrightarrow> ww k = Some s \<Longrightarrow> counters_ok s"
proof (induction arbitrary: k s rule: reachable.induct)
  case empty
  then show ?case by simp
next
  case (init ww data_df)
  from init.prems have "ww k = Some s \<or> s = default_stats"
    by (rule initialize_new_words_lookup)
  then show ?case using init.IH counters_ok_default by blast
next
  case (update ww w c l is_correct now)
  show ?case
  proof (cases "k = word_key w c l")
    case True
    let ?s0 = "case ww k of Some s \<Rightarrow> s | None \<Rightarrow> default_stats"
    have "counters_ok ?s0"
      using update.IH [of k] counters_ok_default by (cases "ww k") simp_all
    moreover from update.prems True have "s = update_stats is_correct now ?s0"
      by (simp add: update_word_performance_lookup)
    ultimately show ?thesis by (simp add: counters_ok_update_stats)
  next
    case False
    with update.prems have "ww k = Some s" by (simp add: update_word_performance_lookup)
    then show ?thesis by (rule update.IH)
  qed
next
  case (reset_word ww w c l)
  from reset_word.prems have "ww k = Some s \<or> s = default_stats"
    by (rule reset_word_stats_lookup)
  then show ?case using reset_word.IH counters_ok_default by blast
next
  case (reset_all ww)
  from reset_all.prems have "s = default_stats" by (rule reset_all_stats_lookup)
  then show ?case by (simp add: counters_ok_default)
qed


text \<open>
  Claim C6 says that exactly one of \<open>consecutive_correct\<close> and \<open>consecutive_wrong\<close> is
  non-zero at any time, also for a freshly created record. The record that
  \<open>_initialize_new_words\<close> creates has both at zero.
\<close>

theorem fresh_record_has_no_streak:
  "initialize_new_words [\<lparr>row_word = ''cat'', row_class = ''noun'', row_level = ''a1''\<rparr>]
      Map.empty ''cat_noun_a1'' = Some default_stats
   \<and> consecutive_correct default_stats = 0
   \<and> consecutive_wrong default_stats = 0
   \<and> \<not> ((consecutive_correct default_stats \<noteq> 0) \<noteq> (consecutive_wrong default_stats \<noteq> 0))"
  by (simp add: word_key_def default_stats_def)


text \<open>
  Claim C6, amended. In every dictionary that the class reaches from the empty one (by
  initialization, updates and resets), every record has \<open>total_attempts\<close> equal to
  \<open>correct_count + wrong_count\<close> and at most one of the two streak counters non-zero; and
  right after an update of a word, exactly one of its two streak counters is non-zero.
\<close>

theorem counters_invariant:
  "reachable ww \<Longrightarrow>
     (\<forall>k s. ww k = Some s \<longrightarrow>
         total_attempts s = correct_count s + wrong_count s
         \<and> (consecutive_correct s = 0 \<or> consecutive_wrong s = 0))
     \<and> (\<forall>w c l ok now. \<exists>s'.
           fst (update_word_performance w c l ok now ww) (word_key w c l) = Some s'
           \<and> ((consecutive_correct s' \<noteq> 0) \<noteq> (consecutive_wrong s' \<noteq> 0)))"
proof -
  assume r: "reachable ww"
  have a: "total_attempts s = correct_count s + wrong_count s
           \<and> (consecutive_correct s = 0 \<or> consecutive_wrong s = 0)"
    if "ww k = Some s" for k s
    using reachable_counters_ok [OF r that] by (simp add: counters_ok_def)
  have b: "\<exists>s'. fst (update_word_performance w c l ok now ww) (word_key w c l) = Some s'
           \<and> ((consecutive_correct s' \<noteq> 0) \<noteq> (consecutive_wrong s' \<noteq> 0))"
    for w c l ok now
  proof -
    let ?k = "word_key w c l"
    let ?s0 = "case ww ?k of Some s \<Rightarrow> s | None \<Rightarrow> default_stats"
    have "counters_ok ?s0"
      using reachable_counters_ok [OF r, of ?k] counters_ok_default
      by (cases "ww ?k") simp_all
    then have "(consecutive_correct (update_stats ok now ?s0) \<noteq> 0)
                 \<noteq> (consecutive_wrong (update_stats ok now ?s0) \<noteq> 0)"
      by (rule one_streak_after_update)
    moreover have "fst (update_word_performance w c l ok now ww) ?k
                     = Some (update_stats ok now ?s0)"
      by (simp add: update_word_performance_lookup)
    ultimately show ?thesis by blast
  qed
  from a b show ?thesis by blast
qed

theorem counters_invariant_witness:
  "reachable (fst (update_word_performance ''cat'' ''noun'' ''a1'' False ''t1'' Map.empty))
   \<and> map_option total_attempts
        (fst (update_word_performance ''cat'' ''noun'' ''a1'' False ''t1'' Map.empty)
           ''cat_noun_a1'') = Some 1
   \<and> map_option wrong_count
        (fst (update_word_performance ''cat'' ''noun'' ''a1'' False ''t1'' Map.empty)
           ''cat_noun_a1'') = Some 1
   \<and> map_option consecutive_correct
        (fst (update_word_performance ''cat'' ''noun'' ''a1'' True ''t2''
           (fst (update_word_performance ''cat'' ''noun'' ''a1'' False ''t1'' Map.empty)))
           ''cat_noun_a1'') = Some 1
   \<and> map_option consecutive_wrong
        (fst (update_word_performance ''cat'' ''noun'' ''a1'' True ''t2''
           (fst (update_word_performance ''cat'' ''noun'' ''a1'' False ''t1'' Map.empty)))
           ''cat_noun_a1'') = Some 0"
proof -
  let ?ww = "fst (update_word_performance ''cat'' ''noun'' ''a1'' False ''t1'' Map.empty)"
  have r: "reachable ?ww" by (intro reachable.intros)
  note inv = counters_invariant [OF r]
  have k: "word_key ''cat'' ''noun'' ''a1'' = ''cat_noun_a1''" by (simp add: word_key_def)
  show ?thesis
    using r inv
    by (simp add: update_word_performance_lookup k update_stats_counters default_stats_def)
qed

section \<open>Facts about the weighted draw\<close>

lemma bisect_right_bounds:
  "lo \<le> hi \<Longrightarrow> lo \<le> bisect_right a x lo hi \<and> bisect_right a x lo hi \<le> hi"
proof (induction a x lo hi rule: bisect_right.induct)
  case (1 a x lo hi)
  show ?case
  proof (cases "lo < hi")
    case False
    then have "bisect_right a x lo hi = lo" by (subst bisect_right.simps) simp
    with "1.prems" show ?thesis by simp
  next
    case True
    let ?mid = "(lo + hi) div 2"
    from True have m: "lo \<le> ?mid" "?mid < hi" by simp_all
    show ?thesis
    proof (cases "x < a ! ?mid")
      case left: True
      from True left have eq: "bisect_right a x lo hi = bisect_right a x lo ?mid"
        by (subst bisect_right.simps) (simp add: Let_def)
      from m have "lo \<le> bisect_right a x lo ?mid \<and> bisect_right a x lo ?mid \<le> ?mid"
        using "1.IH"(1) [OF True refl left] by simp
      with m show ?thesis unfolding eq by linarith
    next
      case right: False
      from True right have eq: "bisect_right a x lo hi = bisect_right a x (?mid + 1) hi"
        by (subst bisect_right.simps) (simp add: Let_def)
      from m have "?mid + 1 \<le> bisect_right a x (?mid + 1) hi
                   \<and> bisect_right a x (?mid + 1) hi \<le> hi"
        using "1.IH"(2) [OF True refl right] by simp
      with m show ?thesis unfolding eq by linarith
    qed
  qed
qed

lemma length_accumulate_from: "length (accumulate_from acc xs) = length xs"
  by (induction xs arbitrary: acc) simp_all

lemma length_accumulate: "length (accumulate xs) = length xs"
  by (cases xs) (simp_all add: accumulate_def length_accumulate_from)

lemma last_accumulate_from: "last (acc # accumulate_from acc xs) = acc + sum_list xs"
  by (induction xs arbitrary: acc) (simp_all add: algebra_simps)

lemma last_accumulate: "xs \<noteq> [] \<Longrightarrow> last (accumulate xs) = sum_list xs"
  by (cases xs) (simp_all add: accumulate_def last_accumulate_from del: last.simps)

lemma choices_member: "choices population ws r = Inr e \<Longrightarrow> e \<in> set population"
proof -
  assume c: "choices population ws r = Inr e"
  let ?n = "length population"
  let ?cum = "accumulate ws"
  from c have len: "length ?cum = ?n" and ne: "?cum \<noteq> []"
    by (auto simp add: choices_def Let_def split: if_splits)
  then have n: "0 < ?n" by auto
  from c len ne
  have e: "e = population ! bisect_right ?cum (r * last ?cum) 0 (?n - 1)"
    by (auto simp add: choices_def Let_def split: if_splits)
  have "bisect_right ?cum (r * last ?cum) 0 (?n - 1) \<le> ?n - 1"
    using bisect_right_bounds [of 0 "?n - 1"] by simp
  with n have "bisect_right ?cum (r * last ?cum) 0 (?n - 1) < ?n" by linarith
  with e show ?thesis by simp
qed

lemma sum_list_positive: "xs \<noteq> [] \<Longrightarrow> \<forall>x\<in>set xs. 0 < x \<Longrightarrow> 0 < sum_list (xs :: real list)"
proof (induction xs)
  case Nil
  then show ?case by simp
next
  case (Cons a xs)
  then have a: "0 < a" by simp
  show ?case
  proof (cases "xs = []")
    case True
    with a show ?thesis by simp
  next
    case False
    with Cons have "0 < sum_list xs" by simp
    with a show ?thesis by simp
  qed
qed

lemma choices_positive:
  assumes "length ws = length population" and "population \<noteq> []"
    and "\<forall>x\<in>set ws. 0 < x"
  shows "\<exists>e\<in>set population. choices population ws r = Inr e"
proof -
  from assms(1,2) have ws: "ws \<noteq> []" by auto
  then have "0 < sum_list ws" using assms(3) by (rule sum_list_positive)
  with ws have pos: "\<not> last (accumulate ws) \<le> 0" by (simp add: last_accumulate)
  from ws have ne: "accumulate ws \<noteq> []"
    using length_accumulate [of ws] by auto
  from assms(1) pos ne obtain e where e: "choices population ws r = Inr e"
    by (simp add: choices_def Let_def length_accumulate)
  then have "e \<in> set population" by (rule choices_member)
  with e show ?thesis by blast
qed





lemma bisect_right_same: "bisect_right a x lo lo = lo"
  by (subst bisect_right.simps) simp


section \<open>Claims about the weighted draw\<close>





text \<open>
  Claim C10. When every stored weight lies in \<open>[0.1, 5.0]\<close> (a missing record counts 1.0)
  and the candidate rows are not empty, every candidate weight is positive, so is their
  sum, \<open>random.choices\<close> returns one of the candidates instead of raising, and the draw
  returns that candidate whatever the fallback would have chosen: the fallback of lines
  102-105 is not reached.
\<close>

theorem weighted_selection_well_defined:
  assumes "\<forall>k s. ww k = Some s \<longrightarrow> 0.1 \<le> weight s \<and> weight s \<le> 5"
    and "filtered_df data_df level \<noteq> []"
  shows "(\<forall>x\<in>set (weights ww (filtered_df data_df level)). 0 < x)
       \<and> 0 < sum_list (weights ww (filtered_df data_df level))
       \<and> (\<exists>e\<in>set (words_data (filtered_df data_df level)).
             choices (words_data (filtered_df data_df level))
               (weights ww (filtered_df data_df level)) r = Inr e
             \<and> (\<forall>j. get_weighted_word data_df ww level r j = Inr (Some e)))"
proof -
  let ?rows = "filtered_df data_df level"
  have pos: "\<forall>x\<in>set (weights ww ?rows). 0 < x"
  proof
    fix x assume "x \<in> set (weights ww ?rows)"
    then obtain k where x: "x = (case ww k of None \<Rightarrow> 1.0 | Some s \<Rightarrow> weight s)"
      by (auto simp add: weights_def)
    show "0 < x"
    proof (cases "ww k")
      case None
      with x show ?thesis by simp
    next
      case (Some s)
      with assms(1) have "0.1 \<le> weight s" by blast
      with x Some show ?thesis by simp
    qed
  qed
  from assms(2) have ne: "weights ww ?rows \<noteq> []" and wd: "words_data ?rows \<noteq> []"
    by (simp_all add: weights_def words_data_def)
  from ne pos have sum: "0 < sum_list (weights ww ?rows)" by (rule sum_list_positive)
  have "length (weights ww ?rows) = length (words_data ?rows)"
    by (simp add: weights_def words_data_def)
  from choices_positive [OF this wd pos]
  obtain e where e: "e \<in> set (words_data ?rows)"
    and c: "choices (words_data ?rows) (weights ww ?rows) r = Inr e" by blast
  from assms(2) wd c have "\<forall>j. get_weighted_word data_df ww level r j = Inr (Some e)"
    by (simp add: get_weighted_word_def)
  with pos sum e c show ?thesis by blast
qed



text \<open>
  Two words of level a1, the first with stored weight 5 and the second without a record:
  the weights are 5 and 1, and the random number 0.9 selects the second word.
\<close>

theorem weighted_selection_well_defined_witness:
  "filtered_df
      [\<lparr>row_word = ''cat'', row_class = ''noun'', row_level = ''a1''\<rparr>,
       \<lparr>row_word = ''dog'', row_class = ''noun'', row_level = ''a1''\<rparr>]
      (Some ''a1'') \<noteq> []
   \<and> sum_list (weights
        (Map.empty(''cat_noun_a1'' \<mapsto> default_stats\<lparr>weight := 5\<rparr>))
        (filtered_df
          [\<lparr>row_word = ''cat'', row_class = ''noun'', row_level = ''a1''\<rparr>,
           \<lparr>row_word = ''dog'', row_class = ''noun'', row_level = ''a1''\<rparr>]
          (Some ''a1''))) = 6
   \<and> get_weighted_word
        [\<lparr>row_word = ''cat'', row_class = ''noun'', row_level = ''a1''\<rparr>,
         \<lparr>row_word = ''dog'', row_class = ''noun'', row_level = ''a1''\<rparr>]
        (Map.empty(''cat_noun_a1'' \<mapsto> default_stats\<lparr>weight := 5\<rparr>))
        (Some ''a1'') (9 / 10) 3 = Inr (Some (''dog'', ''noun'', ''a1''))"
proof -
  let ?data = "[\<lparr>row_word = ''cat'', row_class = ''noun'', row_level = ''a1''\<rparr>,
                \<lparr>row_word = ''dog'', row_class = ''noun'', row_level = ''a1''\<rparr>]"
  let ?ww = "Map.empty(''cat_noun_a1'' \<mapsto> default_stats\<lparr>weight := 5\<rparr>)"
  have stored: "\<forall>k s. ?ww k = Some s \<longrightarrow> 0.1 \<le> weight s \<and> weight s \<le> 5"
    by (auto split: if_splits)
  have rows: "filtered_df ?data (Some ''a1'') = ?data"
    by (simp add: filtered_df_def lower_def lower_char_def isupper_def)
  then have ne: "filtered_df ?data (Some ''a1'') \<noteq> []" by simp
  have w: "weights ?ww ?data = [5, 1]"
    by (simp add: weights_def word_key_def)
  have b: "bisect_right [5, 6] (27 / 5) 0 (Suc 0) = 1"
    by (subst bisect_right.simps) (simp add: bisect_right_same)
  have c: "choices (words_data ?data) [5, 1] (9 / 10) = Inr (''dog'', ''noun'', ''a1'')"
    by (simp add: choices_def words_data_def accumulate_def b)
  from weighted_selection_well_defined [OF stored ne, of "9 / 10"]
  obtain e where "choices (words_data ?data) [5, 1] (9 / 10) = Inr e"
    and "\<forall>j. get_weighted_word ?data ?ww (Some ''a1'') (9 / 10) j = Inr (Some e)"
    unfolding rows w by blast
  with c have "get_weighted_word ?data ?ww (Some ''a1'') (9 / 10) 3
                 = Inr (Some (''dog'', ''noun'', ''a1''))"
    by simp
  with ne show ?thesis by (simp add: rows w)
qed

end
